theory Spec2Isabelle
  imports Main "HOL-Library.Char_ord" "HOL-Library.List_Lexorder" "HOL-Library.Multiset"
    "HOL-Library.AList"
begin

section \<open>Bytes, strings and decode faults\<close>

text \<open>
  A Go \<open>string\<close> is a sequence of bytes and so is a \<open>bytes.Buffer\<close>; both are lists of
  \<open>char\<close>, the 8-bit character type. Strings compare as Go compares them: byte by byte,
  a proper prefix first. A nil slice and an empty slice are the same list \<open>[]\<close>
  (\<open>len\<close> is 0 for both).
\<close>

type_synonym byte = char

abbreviation (input) NUL :: byte where
  "NUL \<equiv> CHR 0x00"
type_synonym buffer = "char list"

text \<open>
  \<open>bson.NewBsonError\<close> panics with a formatted message. The message of an unexpected
  wire tag holds the tag and the name of the construct being decoded; running out of
  input is "Unexpected EOF".
\<close>

datatype error = UnexpectedTag byte string | UnexpectedEOF

type_synonym 'a decoded = "error + 'a \<times> buffer"

section \<open>Package key\<close>

type_synonym KeyspaceId = string
type_synonym KeyspaceIdType = string
type_synonym TabletType = string

record KeyRange =
  Start :: KeyspaceId
  End :: KeyspaceId

text \<open>
  Modelled from the spec: package \<open>key\<close> is not among the sources. The spec gives
  \<open>IsPartial\<close> as false only when the range spans the whole domain, which is the range
  whose two boundaries are both the empty keyspace id.
\<close>

definition IsPartial :: "KeyRange \<Rightarrow> bool" where
  "IsPartial kr = (\<not> (Start kr = [] \<and> End kr = []))"

text \<open>
  Modelled from the spec: \<open>KeyspaceId.Hex\<close> is not among the sources. The spec gives
  the boundary values hex-encoded in lowercase, two digits for each byte.
\<close>

definition hexdigit :: "nat \<Rightarrow> char" where
  "hexdigit n = ''0123456789abcdef'' ! (n mod 16)"

fun Hex :: "KeyspaceId \<Rightarrow> string" where
  "Hex [] = []"
| "Hex (c # cs) = hexdigit (of_char c div 16) # hexdigit (of_char c) # Hex cs"

section \<open>SrvShard\<close>

definition SHARD_ZERO :: string where
  "SHARD_ZERO = ''0''"

record SrvShard =
  KeyRange :: KeyRange
  ServedTypes :: "TabletType list"
  TabletTypes :: "TabletType list"
  version :: int

definition NewSrvShard :: "int \<Rightarrow> SrvShard" where
  "NewSrvShard v = \<lparr>KeyRange = \<lparr>Start = [], End = []\<rparr>, ServedTypes = [], TabletTypes = [],
     version = v\<rparr>"

definition ShardName :: "SrvShard \<Rightarrow> string" where
  "ShardName ss =
     (if \<not> IsPartial (KeyRange ss) then SHARD_ZERO
      else Hex (Start (KeyRange ss)) @ ''-'' @ Hex (End (KeyRange ss)))"

section \<open>ShardName\<close>

text \<open>
  C7. \<open>ShardName\<close> is the literal "0" exactly when the key range is not partial; for a
  partial range it is the lowercase hex of the start, a hyphen, and the lowercase hex of
  the end; and two shard records with the same key range have the same name.
\<close>

theorem ShardName_spec:
  "(ShardName ss = ''0'') = (\<not> IsPartial (KeyRange ss))
   \<and> (if IsPartial (KeyRange ss)
      then ShardName ss = Hex (Start (KeyRange ss)) @ ''-'' @ Hex (End (KeyRange ss))
      else ShardName ss = ''0'')
   \<and> ShardName (ss\<lparr>ServedTypes := st, TabletTypes := tt, version := v\<rparr>) = ShardName ss"
proof -
  have "Hex a @ ''-'' @ Hex b \<noteq> ''0''" for a b
    by (cases "Hex a") simp_all
  then show ?thesis
    by (simp add: ShardName_def SHARD_ZERO_def)
qed

theorem ShardName_spec_witness:
  "IsPartial \<lparr>Start = [CHR 0x80], End = [CHR 0xC0]\<rparr>
   \<and> ShardName \<lparr>KeyRange = \<lparr>Start = [CHR 0x80], End = [CHR 0xC0]\<rparr>, ServedTypes = [],
        TabletTypes = [], version = 0\<rparr> = ''80-c0''
   \<and> \<not> IsPartial \<lparr>Start = [], End = []\<rparr>
   \<and> ShardName \<lparr>KeyRange = \<lparr>Start = [], End = []\<rparr>, ServedTypes = [''master'', ''replica''],
        TabletTypes = [], version = 0\<rparr> = ''0''"
  using ShardName_spec [of "\<lparr>KeyRange = \<lparr>Start = [CHR 0x80], End = [CHR 0xC0]\<rparr>,
      ServedTypes = [], TabletTypes = [], version = 0\<rparr>"]
    ShardName_spec [of "\<lparr>KeyRange = \<lparr>Start = [], End = []\<rparr>,
      ServedTypes = [''master'', ''replica''], TabletTypes = [], version = 0\<rparr>"]
  by (simp add: IsPartial_def hexdigit_def)

section \<open>SrvShardArray and its sort\<close>

type_synonym SrvShardArray = "SrvShard list"

text \<open>
  The three methods that make \<open>SrvShardArray\<close> a \<open>sort.Interface\<close>. Indexing a Go
  slice outside its length panics: \<open>Less\<close> and \<open>Swap\<close> give \<open>None\<close> there.
\<close>

definition Len :: "SrvShardArray \<Rightarrow> nat" where
  "Len sa = length sa"

definition Less :: "SrvShardArray \<Rightarrow> nat \<Rightarrow> nat \<Rightarrow> bool option" where
  "Less sa i j =
     (if i < length sa \<and> j < length sa
      then Some (Start (KeyRange (sa ! i)) < Start (KeyRange (sa ! j)))
      else None)"

definition Swap :: "SrvShardArray \<Rightarrow> nat \<Rightarrow> nat \<Rightarrow> SrvShardArray option" where
  "Swap sa i j =
     (if i < length sa \<and> j < length sa then Some (sa[i := sa ! j, j := sa ! i]) else None)"

text \<open>
  Modelled from the spec: \<open>sort.Sort\<close> is Go's library routine and is not among the
  sources. The spec gives \<open>Sort()\<close> as an in-place sort, ascending by
  \<open>KeyRange.start\<close>. The routine is handed the three methods; it reads the data through
  \<open>Len\<close> and \<open>Less\<close> and changes it through \<open>Swap\<close> only. The model is the
  library's insertion sort, the routine it runs on short slices:
  \<open>for i := a + 1; i < b; i++ { for j := i; j > a && data.Less(j, j-1); j-- {
  data.Swap(j, j-1) } }\<close>. On longer slices the library partitions the data first; what it
  leaves is again in ascending order as determined by \<open>Less\<close>, and can differ from what
  the model leaves only in the order of elements that \<open>Less\<close> does not separate.
\<close>

type_synonym 's sorter =
  "('s \<Rightarrow> nat) \<Rightarrow> ('s \<Rightarrow> nat \<Rightarrow> nat \<Rightarrow> bool option) \<Rightarrow> ('s \<Rightarrow> nat \<Rightarrow> nat \<Rightarrow> 's option)
     \<Rightarrow> 's \<Rightarrow> 's option"

fun insertionInner ::
  "('s \<Rightarrow> nat \<Rightarrow> nat \<Rightarrow> bool option) \<Rightarrow> ('s \<Rightarrow> nat \<Rightarrow> nat \<Rightarrow> 's option) \<Rightarrow> nat \<Rightarrow> nat \<Rightarrow> 's
     \<Rightarrow> 's option" where
  "insertionInner lt sw a 0 s = Some s"
| "insertionInner lt sw a (Suc j) s =
     (if a < Suc j then
        (case lt s (Suc j) j of
           None \<Rightarrow> None
         | Some False \<Rightarrow> Some s
         | Some True \<Rightarrow>
             (case sw s (Suc j) j of
                None \<Rightarrow> None
              | Some s' \<Rightarrow> insertionInner lt sw a j s'))
      else Some s)"

fun forEach :: "(nat \<Rightarrow> 's \<Rightarrow> 's option) \<Rightarrow> nat list \<Rightarrow> 's \<Rightarrow> 's option" where
  "forEach body [] s = Some s"
| "forEach body (i # is) s =
     (case body i s of None \<Rightarrow> None | Some s' \<Rightarrow> forEach body is s')"

definition insertionSort ::
  "('s \<Rightarrow> nat \<Rightarrow> nat \<Rightarrow> bool option) \<Rightarrow> ('s \<Rightarrow> nat \<Rightarrow> nat \<Rightarrow> 's option) \<Rightarrow> nat \<Rightarrow> nat \<Rightarrow> 's
     \<Rightarrow> 's option" where
  "insertionSort lt sw a b s = forEach (insertionInner lt sw a) [a + 1 ..< b] s"

definition sort_Sort :: "'s sorter" where
  "sort_Sort len lt sw data = insertionSort lt sw 0 (len data) data"

definition Sort :: "SrvShardArray \<Rightarrow> SrvShardArray option" where
  "Sort sa = sort_Sort Len Less Swap sa"

subsection \<open>Sort leaves the shards in ascending order\<close>

lemma Less_adjacent:
  "Less (pre @ y # x # post) (Suc (length pre)) (length pre)
   = Some (Start (KeyRange x) < Start (KeyRange y))"
  by (simp add: Less_def nth_append)

lemma Swap_adjacent:
  "Swap (pre @ y # x # post) (Suc (length pre)) (length pre) = Some (pre @ x # y # post)"
  by (simp add: Swap_def nth_append list_update_append)

lemma insertionInner_sorts:
  assumes "sorted (map (\<lambda>s. Start (KeyRange s)) pre)"
    and "sorted (map (\<lambda>s. Start (KeyRange s)) mid)"
    and "\<forall>m \<in> set mid. Start (KeyRange x) < Start (KeyRange m)"
    and "\<forall>p \<in> set pre. \<forall>m \<in> set mid. Start (KeyRange p) \<le> Start (KeyRange m)"
  shows "\<exists>r. insertionInner Less Swap 0 (length pre) (pre @ x # mid @ post) = Some (r @ post)
           \<and> mset r = mset (pre @ x # mid)
           \<and> sorted (map (\<lambda>s. Start (KeyRange s)) r)"
  using assms
proof (induction pre arbitrary: mid rule: rev_induct)
  case Nil
  then have "sorted (map (\<lambda>s. Start (KeyRange s)) (x # mid))"
    by (auto simp: less_imp_le)
  then show ?case
    by (intro exI [of _ "x # mid"]) simp
next
  case (snoc y pre0)
  let ?k = "\<lambda>s. Start (KeyRange s)"
  have pre0: "sorted (map ?k pre0)" and pre0_y: "\<forall>p \<in> set pre0. ?k p \<le> ?k y"
    using snoc.prems(1) by (auto simp: sorted_append)
  have split: "(pre0 @ [y]) @ x # mid @ post = pre0 @ y # x # mid @ post"
    by simp
  show ?case
  proof (cases "?k x < ?k y")
    case True
    have m: "sorted (map ?k (y # mid))"
      using snoc.prems(2) snoc.prems(4) by auto
    have x: "\<forall>m \<in> set (y # mid). ?k x < ?k m"
      using True snoc.prems(3) by auto
    have p: "\<forall>p \<in> set pre0. \<forall>m \<in> set (y # mid). ?k p \<le> ?k m"
      using pre0_y snoc.prems(4) by auto
    from snoc.IH [OF pre0 m x p] obtain r where
      r: "insertionInner Less Swap 0 (length pre0) (pre0 @ x # (y # mid) @ post) = Some (r @ post)"
        "mset r = mset (pre0 @ x # y # mid)" "sorted (map ?k r)"
      by blast
    have "insertionInner Less Swap 0 (length (pre0 @ [y])) ((pre0 @ [y]) @ x # mid @ post)
          = Some (r @ post)"
      using r(1) True by (simp add: split Less_adjacent Swap_adjacent)
    moreover have "mset r = mset ((pre0 @ [y]) @ x # mid)"
      using r(2) by simp
    ultimately show ?thesis
      using r(3) by blast
  next
    case False
    then have yx: "?k y \<le> ?k x" by simp
    have "sorted (map ?k ((pre0 @ [y]) @ x # mid))"
      using snoc.prems yx pre0_y by (fastforce simp: sorted_append less_imp_le)
    moreover have "insertionInner Less Swap 0 (length (pre0 @ [y])) ((pre0 @ [y]) @ x # mid @ post)
          = Some (((pre0 @ [y]) @ x # mid) @ post)"
      using False by (simp add: split Less_adjacent)
    ultimately show ?thesis by blast
  qed
qed

lemma forEach_insertionInner_sorts:
  assumes "i \<le> length s" and "sorted (map (\<lambda>s. Start (KeyRange s)) (take i s))"
  shows "\<exists>r. forEach (insertionInner Less Swap 0) [i ..< length s] s = Some r
           \<and> mset r = mset s \<and> sorted (map (\<lambda>s. Start (KeyRange s)) r)"
  using assms
proof (induction "length s - i" arbitrary: s i)
  case 0
  then show ?case by simp
next
  case (Suc n)
  let ?k = "\<lambda>s. Start (KeyRange s)"
  from Suc.hyps(2) have i: "i < length s" by simp
  have s: "s = take i s @ s ! i # [] @ drop (Suc i) s"
    using i by (simp add: id_take_nth_drop)
  have "\<exists>r. insertionInner Less Swap 0 (length (take i s)) (take i s @ s ! i # [] @ drop (Suc i) s)
              = Some (r @ drop (Suc i) s)
           \<and> mset r = mset (take i s @ s ! i # []) \<and> sorted (map ?k r)"
    by (rule insertionInner_sorts) (use Suc.prems(2) in simp_all)
  then obtain r where r: "insertionInner Less Swap 0 i s = Some (r @ drop (Suc i) s)"
    "mset r = mset (take i s @ [s ! i])" "sorted (map ?k r)"
    using s i by (metis length_take min.absorb2 less_imp_le)
  define s' where "s' = r @ drop (Suc i) s"
  have lr: "length r = Suc i"
    using r(2) i by (metis length_append_singleton length_take min.absorb2 less_imp_le size_mset)
  have ls: "length s' = length s"
    using lr i by (simp add: s'_def)
  have ms: "mset s' = mset s"
  proof -
    have "mset s' = mset (take i s @ [s ! i]) + mset (drop (Suc i) s)"
      by (simp add: s'_def r(2))
    also have "\<dots> = mset (take i s @ s ! i # drop (Suc i) s)" by simp
    also have "\<dots> = mset s" using i by (simp add: id_take_nth_drop [symmetric])
    finally show ?thesis .
  qed
  have "\<exists>q. forEach (insertionInner Less Swap 0) [Suc i ..< length s'] s' = Some q
           \<and> mset q = mset s' \<and> sorted (map ?k q)"
  proof (rule Suc.hyps(1))
    show "n = length s' - Suc i" using Suc.hyps(2) ls by simp
    show "Suc i \<le> length s'" using i ls by simp
    show "sorted (map ?k (take (Suc i) s'))" using r(3) lr by (simp add: s'_def)
  qed
  then obtain q where q: "forEach (insertionInner Less Swap 0) [Suc i ..< length s] s' = Some q"
    "mset q = mset s'" "sorted (map ?k q)"
    using ls by auto
  have "forEach (insertionInner Less Swap 0) [i ..< length s] s = Some q"
    using i r(1) q(1) by (simp add: upt_conv_Cons s'_def)
  with q ms show ?case by auto
qed

lemma Sort_sorts:
  "\<exists>r. Sort sa = Some r \<and> mset r = mset sa \<and> sorted (map (\<lambda>s. Start (KeyRange s)) r)"
proof (cases sa)
  case Nil
  then show ?thesis
    by (simp add: Sort_def sort_Sort_def insertionSort_def Len_def)
next
  case (Cons x xs)
  have "\<exists>r. forEach (insertionInner Less Swap 0) [1 ..< length sa] sa = Some r
           \<and> mset r = mset sa \<and> sorted (map (\<lambda>s. Start (KeyRange s)) r)"
    by (rule forEach_insertionInner_sorts) (simp_all add: Cons)
  then show ?thesis
    by (simp add: Sort_def sort_Sort_def insertionSort_def Len_def)
qed

definition shard :: "string \<Rightarrow> TabletType list \<Rightarrow> SrvShard" where
  "shard k ts = \<lparr>KeyRange = \<lparr>Start = k, End = []\<rparr>, ServedTypes = ts, TabletTypes = [],
     version = 0\<rparr>"

definition three :: SrvShardArray where
  "three = [shard [CHR 0x80] [''master''], shard [] [''replica''], shard [CHR 0x40] []]"

definition three_sorted :: SrvShardArray where
  "three_sorted = [shard [] [''replica''], shard [CHR 0x40] [], shard [CHR 0x80] [''master'']]"

text \<open>
  C4. For shards with pairwise distinct starts, in any order: \<open>Sort\<close> returns, the
  shards it leaves are the shards it was given, in strictly ascending order of
  \<open>KeyRange.Start\<close>, and a second \<open>Sort\<close> leaves them as the first one did.
\<close>

theorem Sort_strict_idempotent:
  assumes "distinct (map (\<lambda>s. Start (KeyRange s)) sa)"
  shows "\<exists>r. Sort sa = Some r \<and> mset r = mset sa
           \<and> sorted_wrt (<) (map (\<lambda>s. Start (KeyRange s)) r)
           \<and> Sort r = Some r"
proof -
  let ?k = "\<lambda>s. Start (KeyRange s)"
  from Sort_sorts [of sa] obtain r where
    r: "Sort sa = Some r" "mset r = mset sa" "sorted (map ?k r)"
    by blast
  from Sort_sorts [of r] obtain r' where
    r': "Sort r = Some r'" "mset r' = mset r" "sorted (map ?k r')"
    by blast
  have "mset (map ?k r) = mset (map ?k sa)"
    using r(2) by simp
  with assms have d: "distinct (map ?k r)"
    by (metis mset_eq_imp_distinct_iff)
  have "mset (map ?k r') = mset (map ?k r)"
    using r'(2) by simp
  with d have d': "distinct (map ?k r')"
    by (metis mset_eq_imp_distinct_iff)
  have e: "set r' = set r"
    using r'(2) by (rule mset_eq_setD)
  have "inj_on ?k (set r)"
    using d by (simp add: distinct_map)
  then have "inj_on ?k (set r' \<union> set r)"
    by (simp add: e)
  then have "r' = r"
    using r'(3) d' r(3) d e by (rule map_sorted_distinct_set_unique)
  moreover have "sorted_wrt (<) (map ?k r)"
    using r(3) d by (simp add: strict_sorted_iff)
  ultimately show ?thesis
    using r(1) r(2) r'(1) by blast
qed

theorem Sort_strict_idempotent_witness:
  "distinct (map (\<lambda>s. Start (KeyRange s)) three)
   \<and> Sort three = Some three_sorted
   \<and> sorted_wrt (<) (map (\<lambda>s. Start (KeyRange s)) three_sorted)
   \<and> Sort three_sorted = Some three_sorted"
proof -
  have d: "distinct (map (\<lambda>s. Start (KeyRange s)) three)"
    by (simp add: three_def shard_def)
  have run: "Sort three = Some three_sorted"
    by (simp add: Sort_def sort_Sort_def Len_def Less_def Swap_def insertionSort_def
        shard_def three_def three_sorted_def)
  from Sort_strict_idempotent [OF d] obtain r where
    r: "Sort three = Some r" "sorted_wrt (<) (map (\<lambda>s. Start (KeyRange s)) r)" "Sort r = Some r"
    by blast
  from r(1) run have "r = three_sorted" by simp
  with r d run show ?thesis by simp
qed

section \<open>Package bson\<close>

text \<open>
  Modelled from the spec: package \<open>bson\<close> is not among the sources. The spec (its
  sections 4.1, 6 and 7) gives: a tag of one byte from a closed set (Null, String, Binary,
  Array, Object and the end-of-object marker); a field as the tag, the field name as a C
  string, and the body; a composite body as 4 length bytes, the children and one
  terminating zero byte, where the length is the count of the bytes written after the
  length bytes; a reader that faults when a read would pass the end of the buffer; a scalar
  decoder that faults on a tag that is not of its kind; and a skip that jumps over a body by
  the length that its tag gives it. The spec leaves open what the model takes from the BSON
  format: the values of the tags, the little-endian order of the 4 length bytes, and the
  body of a string (under the tag Binary its length, a subtype byte and its bytes; under
  the tag String its length plus one, its bytes and a zero byte).
\<close>

definition bson_EOO :: byte where "bson_EOO = CHR 0x00"
definition bson_String :: byte where "bson_String = CHR 0x02"
definition bson_Object :: byte where "bson_Object = CHR 0x03"
definition bson_Array :: byte where "bson_Array = CHR 0x04"
definition bson_Binary :: byte where "bson_Binary = CHR 0x05"
definition bson_Null :: byte where "bson_Null = CHR 0x0A"

lemmas bson_tags = bson_EOO_def bson_String_def bson_Object_def bson_Array_def bson_Binary_def
  bson_Null_def

definition putUint32 :: "nat \<Rightarrow> buffer" where
  "putUint32 n = [char_of n, char_of (n div 256), char_of (n div 65536), char_of (n div 16777216)]"

definition Uint32 :: "buffer \<Rightarrow> nat" where
  "Uint32 b = foldr (\<lambda>c n. of_char c + 256 * n) b 0"

lemma Uint32_putUint32:
  assumes "n < 4294967296"
  shows "Uint32 (putUint32 n) = n"
proof -
  define a where "a = n div 256"
  define b where "b = a div 256"
  define c where "c = b div 256"
  have b: "n div 65536 = b"
    unfolding b_def a_def by (simp add: div_mult2_eq [symmetric])
  have c: "n div 16777216 = c"
    unfolding c_def b_def a_def by (simp add: div_mult2_eq [symmetric])
  have "c < 256"
    using assms unfolding c [symmetric] by (simp add: div_less_iff_less_mult)
  then have c4: "c mod 256 = c" by simp
  have "Uint32 (putUint32 n) = n mod 256 + 256 * (a mod 256 + 256 * (b mod 256 + 256 * (c mod 256)))"
    by (simp add: Uint32_def putUint32_def b c a_def)
  also have "\<dots> = n"
  proof -
    have e3: "b mod 256 + 256 * (c mod 256) = b"
      unfolding c4 unfolding c_def by (rule mod_mult_div_eq)
    have e2: "a mod 256 + 256 * b = a"
      unfolding b_def by (rule mod_mult_div_eq)
    have e1: "n mod 256 + 256 * a = n"
      unfolding a_def by (rule mod_mult_div_eq)
    show ?thesis by (simp only: e3 e2 e1)
  qed
  finally show ?thesis .
qed

lemma length_putUint32: "length (putUint32 n) = 4"
  by (simp add: putUint32_def)


subsection \<open>Reading\<close>

definition Next :: "buffer \<Rightarrow> nat \<Rightarrow> buffer decoded" where
  "Next buf n = (if length buf < n then Inl UnexpectedEOF else Inr (take n buf, drop n buf))"

definition NextByte :: "buffer \<Rightarrow> byte decoded" where
  "NextByte buf = (case buf of [] \<Rightarrow> Inl UnexpectedEOF | b # rest \<Rightarrow> Inr (b, rest))"

definition ReadCString :: "buffer \<Rightarrow> string decoded" where
  "ReadCString buf =
     (if NUL \<in> set buf
      then Inr (takeWhile (\<lambda>c. c \<noteq> NUL) buf, tl (dropWhile (\<lambda>c. c \<noteq> NUL) buf))
      else Inl UnexpectedEOF)"

definition SkipIndex :: "buffer \<Rightarrow> error + buffer" where
  "SkipIndex buf = (case ReadCString buf of Inl e \<Rightarrow> Inl e | Inr (name, rest) \<Rightarrow> Inr rest)"

text \<open>
  A value that is written with no key has no tag and no name of its own
  (\<open>EncodeOptionalPrefix\<close>); its decoder is then handed the tag \<open>EOO\<close>, which
  \<open>VerifyObject\<close> lets pass beside \<open>Object\<close>.
\<close>

definition VerifyObject :: "byte \<Rightarrow> error option" where
  "VerifyObject kind =
     (if kind \<noteq> bson_EOO \<and> kind \<noteq> bson_Object then Some (UnexpectedTag kind ''object'')
      else None)"

definition DecodeString :: "buffer \<Rightarrow> byte \<Rightarrow> string decoded" where
  "DecodeString buf kind =
     (if kind = bson_String then
        (case Next buf 4 of
           Inl e \<Rightarrow> Inl e
         | Inr (l, buf1) \<Rightarrow>
             if Uint32 l = 0 then Inl UnexpectedEOF
             else (case Next buf1 (Uint32 l - 1) of
                     Inl e \<Rightarrow> Inl e
                   | Inr (s, buf2) \<Rightarrow>
                       (case NextByte buf2 of Inl e \<Rightarrow> Inl e | Inr (z, buf3) \<Rightarrow> Inr (s, buf3))))
      else if kind = bson_Binary then
        (case Next buf 4 of
           Inl e \<Rightarrow> Inl e
         | Inr (l, buf1) \<Rightarrow>
             (case NextByte buf1 of
                Inl e \<Rightarrow> Inl e
              | Inr (subtype, buf2) \<Rightarrow> Next buf2 (Uint32 l)))
      else Inl (UnexpectedTag kind ''string''))"

definition Skip :: "buffer \<Rightarrow> byte \<Rightarrow> error + buffer" where
  "Skip buf kind =
     (if kind = bson_Null then Inr buf
      else if kind = bson_String then
        (case Next buf 4 of
           Inl e \<Rightarrow> Inl e
         | Inr (l, buf1) \<Rightarrow>
             (case Next buf1 (Uint32 l) of Inl e \<Rightarrow> Inl e | Inr (s, buf2) \<Rightarrow> Inr buf2))
      else if kind = bson_Binary then
        (case Next buf 4 of
           Inl e \<Rightarrow> Inl e
         | Inr (l, buf1) \<Rightarrow>
             (case Next buf1 (Uint32 l + 1) of Inl e \<Rightarrow> Inl e | Inr (s, buf2) \<Rightarrow> Inr buf2))
      else if kind = bson_Object \<or> kind = bson_Array then
        (case Next buf 4 of
           Inl e \<Rightarrow> Inl e
         | Inr (l, buf1) \<Rightarrow>
             (case Next buf1 (Uint32 l) of Inl e \<Rightarrow> Inl e | Inr (s, buf2) \<Rightarrow> Inr buf2))
      else Inl (UnexpectedTag kind ''skip''))"

subsection \<open>Writing\<close>

definition WriteByte :: "buffer \<Rightarrow> byte \<Rightarrow> buffer" where
  "WriteByte buf b = buf @ [b]"

definition EncodePrefix :: "buffer \<Rightarrow> byte \<Rightarrow> string \<Rightarrow> buffer" where
  "EncodePrefix buf etype key = buf @ etype # key @ [NUL]"

definition EncodeOptionalPrefix :: "buffer \<Rightarrow> byte \<Rightarrow> string \<Rightarrow> buffer" where
  "EncodeOptionalPrefix buf etype key = (if key = [] then buf else EncodePrefix buf etype key)"

definition EncodeString :: "buffer \<Rightarrow> string \<Rightarrow> string \<Rightarrow> buffer" where
  "EncodeString buf key val =
     WriteByte (EncodePrefix buf bson_Binary key @ putUint32 (length val)) NUL @ val"

text \<open>
  \<open>NewLenWriter\<close> reserves the 4 length bytes and remembers where; \<open>RecordLen\<close>
  patches them with the count of the bytes written after them.
\<close>

definition NewLenWriter :: "buffer \<Rightarrow> nat \<times> buffer" where
  "NewLenWriter buf = (length buf, buf @ replicate 4 NUL)"

definition RecordLen :: "nat \<Rightarrow> buffer \<Rightarrow> buffer" where
  "RecordLen off buf = take off buf @ putUint32 (length buf - (off + 4)) @ drop (off + 4) buf"

fun digits :: "nat \<Rightarrow> string" where
  "digits n = (if n < 10 then [char_of (48 + n)] else digits (n div 10) @ [char_of (48 + n mod 10)])"

definition Itoa :: "nat \<Rightarrow> string" where
  "Itoa i = digits i"

declare digits.simps [simp del]


subsection \<open>KeyRange codec\<close>

text \<open>
  Modelled from the spec: the codec of \<open>key.KeyRange\<close> is not among the sources. The
  spec gives it as a nested object codec of its own; it is written here as the object
  codecs of \<open>srvshard.go\<close> are, with the two boundaries as string fields \<open>Start\<close>
  and \<open>End\<close>.
\<close>

definition KeyRange_MarshalBson :: "buffer \<Rightarrow> string \<Rightarrow> KeyRange \<Rightarrow> buffer" where
  "KeyRange_MarshalBson buf key kr =
     (let buf1 = EncodeOptionalPrefix buf bson_Object key;
          (lenWriter, buf2) = NewLenWriter buf1;
          buf3 = EncodeString buf2 ''Start'' (Start kr);
          buf4 = EncodeString buf3 ''End'' (End kr);
          buf5 = WriteByte buf4 NUL
      in RecordLen lenWriter buf5)"

lemma Next_length: "Next buf n = Inr (x, rest) \<Longrightarrow> length rest \<le> length buf"
  by (auto simp: Next_def split: if_splits)

lemma NextByte_length: "NextByte buf = Inr (x, rest) \<Longrightarrow> length rest < length buf"
  by (auto simp: NextByte_def split: list.splits)

lemma ReadCString_length: "ReadCString buf = Inr (x, rest) \<Longrightarrow> length rest < length buf"
proof -
  assume a: "ReadCString buf = Inr (x, rest)"
  then have z: "NUL \<in> set buf" and r: "rest = tl (dropWhile (\<lambda>c. c \<noteq> NUL) buf)"
    by (auto simp: ReadCString_def split: if_splits)
  from z have "dropWhile (\<lambda>c. c \<noteq> NUL) buf \<noteq> []" by simp
  then have "length (tl (dropWhile (\<lambda>c. c \<noteq> NUL) buf)) < length (dropWhile (\<lambda>c. c \<noteq> NUL) buf)"
    by simp
  also have "\<dots> \<le> length buf" by (rule length_dropWhile_le)
  finally show ?thesis using r by simp
qed

lemma SkipIndex_length: "SkipIndex buf = Inr rest \<Longrightarrow> length rest < length buf"
  by (auto simp: SkipIndex_def split: sum.splits dest: ReadCString_length)

lemma DecodeString_length: "DecodeString buf kind = Inr (x, rest) \<Longrightarrow> length rest \<le> length buf"
  unfolding DecodeString_def
  by (auto split: if_splits sum.splits dest!: Next_length NextByte_length)

lemma Skip_length: "Skip buf kind = Inr rest \<Longrightarrow> length rest \<le> length buf"
  unfolding Skip_def
  by (auto split: if_splits sum.splits dest!: Next_length)

definition KeyRange_field :: "KeyRange \<Rightarrow> string \<Rightarrow> buffer \<Rightarrow> byte \<Rightarrow> KeyRange decoded" where
  "KeyRange_field kr keyName buf kind =
     (if keyName = ''Start'' then
        (case DecodeString buf kind of
           Inl e \<Rightarrow> Inl e
         | Inr (v, rest) \<Rightarrow> Inr (kr\<lparr>Start := v\<rparr>, rest))
      else if keyName = ''End'' then
        (case DecodeString buf kind of
           Inl e \<Rightarrow> Inl e
         | Inr (v, rest) \<Rightarrow> Inr (kr\<lparr>End := v\<rparr>, rest))
      else
        (case Skip buf kind of Inl e \<Rightarrow> Inl e | Inr rest \<Rightarrow> Inr (kr, rest)))"

lemma KeyRange_field_length:
  "KeyRange_field kr keyName buf kind = Inr (kr', rest) \<Longrightarrow> length rest \<le> length buf"
  unfolding KeyRange_field_def
  by (auto split: if_splits sum.splits dest!: DecodeString_length Skip_length)

function KeyRange_fields :: "KeyRange \<Rightarrow> buffer \<Rightarrow> KeyRange decoded" where
  "KeyRange_fields kr buf =
     (case NextByte buf of
        Inl e \<Rightarrow> Inl e
      | Inr (kind, buf1) \<Rightarrow>
          if kind = bson_EOO then Inr (kr, buf1)
          else (case ReadCString buf1 of
                  Inl e \<Rightarrow> Inl e
                | Inr (keyName, buf2) \<Rightarrow>
                    (case KeyRange_field kr keyName buf2 kind of
                       Inl e \<Rightarrow> Inl e
                     | Inr (kr', buf3) \<Rightarrow> KeyRange_fields kr' buf3)))"
  by pat_completeness auto
termination
  by (relation "measure (\<lambda>(kr, buf). length buf)")
    (auto dest!: NextByte_length ReadCString_length KeyRange_field_length)

declare KeyRange_fields.simps [simp del]

lemma KeyRange_fields_cases:
  assumes "KeyRange_fields kr buf = Inr (kr', rest)"
  obtains (eoo) "NextByte buf = Inr (bson_EOO, rest)" "kr' = kr"
  | (field) kind buf1 keyName buf2 kr1 buf3 where
      "NextByte buf = Inr (kind, buf1)" "kind \<noteq> bson_EOO"
      "ReadCString buf1 = Inr (keyName, buf2)"
      "KeyRange_field kr keyName buf2 kind = Inr (kr1, buf3)"
      "KeyRange_fields kr1 buf3 = Inr (kr', rest)"
  using assms
  by (subst (asm) KeyRange_fields.simps) (auto split: sum.splits prod.splits if_splits)

lemma KeyRange_fields_length:
  "KeyRange_fields kr buf = Inr (kr', rest) \<Longrightarrow> length rest \<le> length buf"
proof (induction buf arbitrary: kr rule: length_induct)
  case (1 buf)
  from "1.prems" show ?case
  proof (cases rule: KeyRange_fields_cases)
    case eoo
    then show ?thesis using NextByte_length by fastforce
  next
    case (field kind buf1 keyName buf2 kr1 buf3)
    have "length buf3 < length buf"
      using NextByte_length [OF field(1)] ReadCString_length [OF field(3)]
        KeyRange_field_length [OF field(4)] by simp
    with "1.IH" field(5) have "length rest \<le> length buf3" by blast
    with \<open>length buf3 < length buf\<close> show ?thesis by simp
  qed
qed

definition KeyRange_UnmarshalBson :: "KeyRange \<Rightarrow> buffer \<Rightarrow> byte \<Rightarrow> KeyRange decoded" where
  "KeyRange_UnmarshalBson kr buf kind =
     (case VerifyObject kind of
        Some e \<Rightarrow> Inl e
      | None \<Rightarrow> (case Next buf 4 of Inl e \<Rightarrow> Inl e | Inr (l, buf1) \<Rightarrow> KeyRange_fields kr buf1))"

lemma KeyRange_UnmarshalBson_length:
  "KeyRange_UnmarshalBson kr buf kind = Inr (kr', rest) \<Longrightarrow> length rest \<le> length buf"
  unfolding KeyRange_UnmarshalBson_def
  by (auto split: option.splits sum.splits dest!: Next_length KeyRange_fields_length)

section \<open>The codec of srvshard.go\<close>

subsection \<open>TabletType arrays\<close>

definition EncodeTabletTypeArray :: "buffer \<Rightarrow> string \<Rightarrow> TabletType list \<Rightarrow> buffer" where
  "EncodeTabletTypeArray buf name values =
     (if length values = 0 then EncodePrefix buf bson_Null name
      else
        (let buf1 = EncodePrefix buf bson_Array name;
             (lenWriter, buf2) = NewLenWriter buf1;
             buf3 = foldl (\<lambda>b (i, val). EncodeString b (Itoa i) val) buf2 (enumerate 0 values);
             buf4 = WriteByte buf3 NUL
         in RecordLen lenWriter buf4))"

function DecodeTabletTypeArray_loop :: "TabletType list \<Rightarrow> buffer \<Rightarrow> TabletType list decoded" where
  "DecodeTabletTypeArray_loop values buf =
     (case NextByte buf of
        Inl e \<Rightarrow> Inl e
      | Inr (kind, buf1) \<Rightarrow>
          if kind = bson_EOO then Inr (values, buf1)
          else if kind \<noteq> bson_Binary then Inl (UnexpectedTag kind ''TabletType array'')
          else (case SkipIndex buf1 of
                  Inl e \<Rightarrow> Inl e
                | Inr buf2 \<Rightarrow>
                    (case DecodeString buf2 kind of
                       Inl e \<Rightarrow> Inl e
                     | Inr (v, buf3) \<Rightarrow> DecodeTabletTypeArray_loop (values @ [v]) buf3)))"
  by pat_completeness auto
termination
  by (relation "measure (\<lambda>(values, buf). length buf)")
    (auto dest!: NextByte_length SkipIndex_length DecodeString_length)

declare DecodeTabletTypeArray_loop.simps [simp del]

lemma DecodeTabletTypeArray_loop_cases:
  assumes "DecodeTabletTypeArray_loop vs buf = Inr (vs', rest)"
  obtains (eoo) "NextByte buf = Inr (bson_EOO, rest)" "vs' = vs"
  | (elem) buf1 buf2 v buf3 where
      "NextByte buf = Inr (bson_Binary, buf1)"
      "SkipIndex buf1 = Inr buf2"
      "DecodeString buf2 bson_Binary = Inr (v, buf3)"
      "DecodeTabletTypeArray_loop (vs @ [v]) buf3 = Inr (vs', rest)"
  using assms
  by (subst (asm) DecodeTabletTypeArray_loop.simps)
    (auto split: sum.splits prod.splits if_splits)

lemma DecodeTabletTypeArray_loop_length:
  "DecodeTabletTypeArray_loop vs buf = Inr (vs', rest) \<Longrightarrow> length rest \<le> length buf"
proof (induction buf arbitrary: vs rule: length_induct)
  case (1 buf)
  from "1.prems" show ?case
  proof (cases rule: DecodeTabletTypeArray_loop_cases)
    case eoo
    then show ?thesis using NextByte_length by fastforce
  next
    case (elem buf1 buf2 v buf3)
    have "length buf3 < length buf"
      using NextByte_length [OF elem(1)] SkipIndex_length [OF elem(2)]
        DecodeString_length [OF elem(3)] by simp
    with "1.IH" elem(4) have "length rest \<le> length buf3" by blast
    with \<open>length buf3 < length buf\<close> show ?thesis by simp
  qed
qed

definition DecodeTabletTypeArray :: "buffer \<Rightarrow> byte \<Rightarrow> TabletType list decoded" where
  "DecodeTabletTypeArray buf kind =
     (if kind = bson_Array then
        (case Next buf 4 of Inl e \<Rightarrow> Inl e | Inr (l, buf1) \<Rightarrow> DecodeTabletTypeArray_loop [] buf1)
      else if kind = bson_Null then Inr ([], buf)
      else Inl (UnexpectedTag kind ''TabletType array''))"

lemma DecodeTabletTypeArray_length:
  "DecodeTabletTypeArray buf kind = Inr (vs, rest) \<Longrightarrow> length rest \<le> length buf"
  unfolding DecodeTabletTypeArray_def
  by (auto split: if_splits sum.splits dest!: Next_length DecodeTabletTypeArray_loop_length)

subsection \<open>SrvShard\<close>

definition SrvShard_MarshalBson :: "buffer \<Rightarrow> string \<Rightarrow> SrvShard \<Rightarrow> buffer" where
  "SrvShard_MarshalBson buf key ss =
     (let buf1 = EncodeOptionalPrefix buf bson_Object key;
          (lenWriter, buf2) = NewLenWriter buf1;
          buf3 = KeyRange_MarshalBson buf2 ''KeyRange'' (KeyRange ss);
          buf4 = EncodeTabletTypeArray buf3 ''ServedTypes'' (ServedTypes ss);
          buf5 = EncodeTabletTypeArray buf4 ''TabletTypes'' (TabletTypes ss);
          buf6 = WriteByte buf5 NUL
      in RecordLen lenWriter buf6)"

definition SrvShard_field :: "SrvShard \<Rightarrow> string \<Rightarrow> buffer \<Rightarrow> byte \<Rightarrow> SrvShard decoded" where
  "SrvShard_field ss keyName buf kind =
     (if keyName = ''KeyRange'' then
        (case KeyRange_UnmarshalBson (KeyRange ss) buf kind of
           Inl e \<Rightarrow> Inl e
         | Inr (kr, rest) \<Rightarrow> Inr (ss\<lparr>KeyRange := kr\<rparr>, rest))
      else if keyName = ''ServedTypes'' then
        (case DecodeTabletTypeArray buf kind of
           Inl e \<Rightarrow> Inl e
         | Inr (v, rest) \<Rightarrow> Inr (ss\<lparr>ServedTypes := v\<rparr>, rest))
      else if keyName = ''TabletTypes'' then
        (case DecodeTabletTypeArray buf kind of
           Inl e \<Rightarrow> Inl e
         | Inr (v, rest) \<Rightarrow> Inr (ss\<lparr>TabletTypes := v\<rparr>, rest))
      else
        (case Skip buf kind of Inl e \<Rightarrow> Inl e | Inr rest \<Rightarrow> Inr (ss, rest)))"

lemma SrvShard_field_length:
  "SrvShard_field ss keyName buf kind = Inr (ss', rest) \<Longrightarrow> length rest \<le> length buf"
  unfolding SrvShard_field_def
  by (auto split: if_splits sum.splits
      dest!: KeyRange_UnmarshalBson_length DecodeTabletTypeArray_length Skip_length)

function SrvShard_fields :: "SrvShard \<Rightarrow> buffer \<Rightarrow> SrvShard decoded" where
  "SrvShard_fields ss buf =
     (case NextByte buf of
        Inl e \<Rightarrow> Inl e
      | Inr (kind, buf1) \<Rightarrow>
          if kind = bson_EOO then Inr (ss, buf1)
          else (case ReadCString buf1 of
                  Inl e \<Rightarrow> Inl e
                | Inr (keyName, buf2) \<Rightarrow>
                    (case SrvShard_field ss keyName buf2 kind of
                       Inl e \<Rightarrow> Inl e
                     | Inr (ss', buf3) \<Rightarrow> SrvShard_fields ss' buf3)))"
  by pat_completeness auto
termination
  by (relation "measure (\<lambda>(ss, buf). length buf)")
    (auto dest!: NextByte_length ReadCString_length SrvShard_field_length)

declare SrvShard_fields.simps [simp del]

lemma SrvShard_fields_cases:
  assumes "SrvShard_fields ss buf = Inr (ss', rest)"
  obtains (eoo) "NextByte buf = Inr (bson_EOO, rest)" "ss' = ss"
  | (field) kind buf1 keyName buf2 ss1 buf3 where
      "NextByte buf = Inr (kind, buf1)" "kind \<noteq> bson_EOO"
      "ReadCString buf1 = Inr (keyName, buf2)"
      "SrvShard_field ss keyName buf2 kind = Inr (ss1, buf3)"
      "SrvShard_fields ss1 buf3 = Inr (ss', rest)"
  using assms
  by (subst (asm) SrvShard_fields.simps) (auto split: sum.splits prod.splits if_splits)

lemma SrvShard_fields_length:
  "SrvShard_fields ss buf = Inr (ss', rest) \<Longrightarrow> length rest \<le> length buf"
proof (induction buf arbitrary: ss rule: length_induct)
  case (1 buf)
  from "1.prems" show ?case
  proof (cases rule: SrvShard_fields_cases)
    case eoo
    then show ?thesis using NextByte_length by fastforce
  next
    case (field kind buf1 keyName buf2 ss1 buf3)
    have "length buf3 < length buf"
      using NextByte_length [OF field(1)] ReadCString_length [OF field(3)]
        SrvShard_field_length [OF field(4)] by simp
    with "1.IH" field(5) have "length rest \<le> length buf3" by blast
    with \<open>length buf3 < length buf\<close> show ?thesis by simp
  qed
qed

definition SrvShard_UnmarshalBson :: "SrvShard \<Rightarrow> buffer \<Rightarrow> byte \<Rightarrow> SrvShard decoded" where
  "SrvShard_UnmarshalBson ss buf kind =
     (case VerifyObject kind of
        Some e \<Rightarrow> Inl e
      | None \<Rightarrow> (case Next buf 4 of Inl e \<Rightarrow> Inl e | Inr (l, buf1) \<Rightarrow> SrvShard_fields ss buf1))"

lemma SrvShard_UnmarshalBson_length:
  "SrvShard_UnmarshalBson ss buf kind = Inr (ss', rest) \<Longrightarrow> length rest \<le> length buf"
  unfolding SrvShard_UnmarshalBson_def
  by (auto split: option.splits sum.splits dest!: Next_length SrvShard_fields_length)

subsection \<open>SrvShard arrays\<close>

definition SrvShard_zero :: SrvShard where
  "SrvShard_zero = \<lparr>KeyRange = \<lparr>Start = [], End = []\<rparr>, ServedTypes = [], TabletTypes = [],
     version = 0\<rparr>"

definition EncodeSrvShardArray :: "buffer \<Rightarrow> string \<Rightarrow> SrvShard list \<Rightarrow> buffer" where
  "EncodeSrvShardArray buf name values =
     (if length values = 0 then EncodePrefix buf bson_Null name
      else
        (let buf1 = EncodePrefix buf bson_Array name;
             (lenWriter, buf2) = NewLenWriter buf1;
             buf3 = foldl (\<lambda>b (i, val). SrvShard_MarshalBson b (Itoa i) val) buf2
                      (enumerate 0 values);
             buf4 = WriteByte buf3 NUL
         in RecordLen lenWriter buf4))"

function DecodeSrvShardArray_loop :: "SrvShard list \<Rightarrow> buffer \<Rightarrow> SrvShard list decoded" where
  "DecodeSrvShardArray_loop values buf =
     (case NextByte buf of
        Inl e \<Rightarrow> Inl e
      | Inr (kind, buf1) \<Rightarrow>
          if kind = bson_EOO then Inr (values, buf1)
          else if kind \<noteq> bson_Object then Inl (UnexpectedTag kind ''SrvShard array'')
          else (case SkipIndex buf1 of
                  Inl e \<Rightarrow> Inl e
                | Inr buf2 \<Rightarrow>
                    (case SrvShard_UnmarshalBson SrvShard_zero buf2 kind of
                       Inl e \<Rightarrow> Inl e
                     | Inr (v, buf3) \<Rightarrow> DecodeSrvShardArray_loop (values @ [v]) buf3)))"
  by pat_completeness auto
termination
  by (relation "measure (\<lambda>(values, buf). length buf)")
    (auto dest!: NextByte_length SkipIndex_length SrvShard_UnmarshalBson_length)

declare DecodeSrvShardArray_loop.simps [simp del]

lemma DecodeSrvShardArray_loop_cases:
  assumes "DecodeSrvShardArray_loop vs buf = Inr (vs', rest)"
  obtains (eoo) "NextByte buf = Inr (bson_EOO, rest)" "vs' = vs"
  | (elem) buf1 buf2 v buf3 where
      "NextByte buf = Inr (bson_Object, buf1)"
      "SkipIndex buf1 = Inr buf2"
      "SrvShard_UnmarshalBson SrvShard_zero buf2 bson_Object = Inr (v, buf3)"
      "DecodeSrvShardArray_loop (vs @ [v]) buf3 = Inr (vs', rest)"
  using assms
  by (subst (asm) DecodeSrvShardArray_loop.simps)
    (auto split: sum.splits prod.splits if_splits)

lemma DecodeSrvShardArray_loop_length:
  "DecodeSrvShardArray_loop vs buf = Inr (vs', rest) \<Longrightarrow> length rest \<le> length buf"
proof (induction buf arbitrary: vs rule: length_induct)
  case (1 buf)
  from "1.prems" show ?case
  proof (cases rule: DecodeSrvShardArray_loop_cases)
    case eoo
    then show ?thesis using NextByte_length by fastforce
  next
    case (elem buf1 buf2 v buf3)
    have "length buf3 < length buf"
      using NextByte_length [OF elem(1)] SkipIndex_length [OF elem(2)]
        SrvShard_UnmarshalBson_length [OF elem(3)] by simp
    with "1.IH" elem(4) have "length rest \<le> length buf3" by blast
    with \<open>length buf3 < length buf\<close> show ?thesis by simp
  qed
qed

definition DecodeSrvShardArray :: "buffer \<Rightarrow> byte \<Rightarrow> SrvShard list decoded" where
  "DecodeSrvShardArray buf kind =
     (if kind = bson_Array then
        (case Next buf 4 of Inl e \<Rightarrow> Inl e | Inr (l, buf1) \<Rightarrow> DecodeSrvShardArray_loop [] buf1)
      else if kind = bson_Null then Inr ([], buf)
      else Inl (UnexpectedTag kind ''SrvShard array''))"

lemma DecodeSrvShardArray_length:
  "DecodeSrvShardArray buf kind = Inr (vs, rest) \<Longrightarrow> length rest \<le> length buf"
  unfolding DecodeSrvShardArray_def
  by (auto split: if_splits sum.splits dest!: Next_length DecodeSrvShardArray_loop_length)

subsection \<open>KeyspacePartition\<close>

record KeyspacePartition =
  Shards :: "SrvShard list"

definition KeyspacePartition_zero :: KeyspacePartition where
  "KeyspacePartition_zero = \<lparr>Shards = []\<rparr>"

definition KeyspacePartition_MarshalBson :: "buffer \<Rightarrow> string \<Rightarrow> KeyspacePartition \<Rightarrow> buffer" where
  "KeyspacePartition_MarshalBson buf key kp =
     (let buf1 = EncodeOptionalPrefix buf bson_Object key;
          (lenWriter, buf2) = NewLenWriter buf1;
          buf3 = EncodeSrvShardArray buf2 ''Shards'' (Shards kp);
          buf4 = WriteByte buf3 NUL
      in RecordLen lenWriter buf4)"

definition KeyspacePartition_field ::
  "KeyspacePartition \<Rightarrow> string \<Rightarrow> buffer \<Rightarrow> byte \<Rightarrow> KeyspacePartition decoded" where
  "KeyspacePartition_field kp keyName buf kind =
     (if keyName = ''Shards'' then
        (case DecodeSrvShardArray buf kind of
           Inl e \<Rightarrow> Inl e
         | Inr (v, rest) \<Rightarrow> Inr (kp\<lparr>Shards := v\<rparr>, rest))
      else
        (case Skip buf kind of Inl e \<Rightarrow> Inl e | Inr rest \<Rightarrow> Inr (kp, rest)))"

lemma KeyspacePartition_field_length:
  "KeyspacePartition_field kp keyName buf kind = Inr (kp', rest) \<Longrightarrow> length rest \<le> length buf"
  unfolding KeyspacePartition_field_def
  by (auto split: if_splits sum.splits dest!: DecodeSrvShardArray_length Skip_length)

function KeyspacePartition_fields :: "KeyspacePartition \<Rightarrow> buffer \<Rightarrow> KeyspacePartition decoded" where
  "KeyspacePartition_fields kp buf =
     (case NextByte buf of
        Inl e \<Rightarrow> Inl e
      | Inr (kind, buf1) \<Rightarrow>
          if kind = bson_EOO then Inr (kp, buf1)
          else (case ReadCString buf1 of
                  Inl e \<Rightarrow> Inl e
                | Inr (keyName, buf2) \<Rightarrow>
                    (case KeyspacePartition_field kp keyName buf2 kind of
                       Inl e \<Rightarrow> Inl e
                     | Inr (kp', buf3) \<Rightarrow> KeyspacePartition_fields kp' buf3)))"
  by pat_completeness auto
termination
  by (relation "measure (\<lambda>(kp, buf). length buf)")
    (auto dest!: NextByte_length ReadCString_length KeyspacePartition_field_length)

declare KeyspacePartition_fields.simps [simp del]

lemma KeyspacePartition_fields_cases:
  assumes "KeyspacePartition_fields kp buf = Inr (kp', rest)"
  obtains (eoo) "NextByte buf = Inr (bson_EOO, rest)" "kp' = kp"
  | (field) kind buf1 keyName buf2 kp1 buf3 where
      "NextByte buf = Inr (kind, buf1)" "kind \<noteq> bson_EOO"
      "ReadCString buf1 = Inr (keyName, buf2)"
      "KeyspacePartition_field kp keyName buf2 kind = Inr (kp1, buf3)"
      "KeyspacePartition_fields kp1 buf3 = Inr (kp', rest)"
  using assms
  by (subst (asm) KeyspacePartition_fields.simps) (auto split: sum.splits prod.splits if_splits)

lemma KeyspacePartition_fields_length:
  "KeyspacePartition_fields kp buf = Inr (kp', rest) \<Longrightarrow> length rest \<le> length buf"
proof (induction buf arbitrary: kp rule: length_induct)
  case (1 buf)
  from "1.prems" show ?case
  proof (cases rule: KeyspacePartition_fields_cases)
    case eoo
    then show ?thesis using NextByte_length by fastforce
  next
    case (field kind buf1 keyName buf2 kp1 buf3)
    have "length buf3 < length buf"
      using NextByte_length [OF field(1)] ReadCString_length [OF field(3)]
        KeyspacePartition_field_length [OF field(4)] by simp
    with "1.IH" field(5) have "length rest \<le> length buf3" by blast
    with \<open>length buf3 < length buf\<close> show ?thesis by simp
  qed
qed

definition KeyspacePartition_UnmarshalBson :: "KeyspacePartition \<Rightarrow> buffer \<Rightarrow> byte \<Rightarrow> KeyspacePartition decoded" where
  "KeyspacePartition_UnmarshalBson kp buf kind =
     (case VerifyObject kind of
        Some e \<Rightarrow> Inl e
      | None \<Rightarrow> (case Next buf 4 of Inl e \<Rightarrow> Inl e | Inr (l, buf1) \<Rightarrow> KeyspacePartition_fields kp buf1))"

lemma KeyspacePartition_UnmarshalBson_length:
  "KeyspacePartition_UnmarshalBson kp buf kind = Inr (kp', rest) \<Longrightarrow> length rest \<le> length buf"
  unfolding KeyspacePartition_UnmarshalBson_def
  by (auto split: option.splits sum.splits dest!: Next_length KeyspacePartition_fields_length)

subsection \<open>SrvKeyspace\<close>

record SrvKeyspace =
  Partitions :: "(TabletType \<times> KeyspacePartition) list"
  keyspace_Shards :: "SrvShard list"
  keyspace_TabletTypes :: "TabletType list"
  ShardingColumnName :: string
  ShardingColumnType :: KeyspaceIdType
  ServedFrom :: "(TabletType \<times> string) list"
  keyspace_version :: int

definition NewSrvKeyspace :: "int \<Rightarrow> SrvKeyspace" where
  "NewSrvKeyspace v = \<lparr>Partitions = [], keyspace_Shards = [], keyspace_TabletTypes = [],
     ShardingColumnName = [], ShardingColumnType = [], ServedFrom = [], keyspace_version = v\<rparr>"

definition EncodeKeyspacePartitionMap ::
  "buffer \<Rightarrow> string \<Rightarrow> (TabletType \<times> KeyspacePartition) list \<Rightarrow> buffer" where
  "EncodeKeyspacePartitionMap buf name values =
     (if length values = 0 then EncodePrefix buf bson_Null name
      else
        (let buf1 = EncodePrefix buf bson_Object name;
             (lenWriter, buf2) = NewLenWriter buf1;
             buf3 = foldl (\<lambda>b (i, val). KeyspacePartition_MarshalBson b i val) buf2 values;
             buf4 = WriteByte buf3 NUL
         in RecordLen lenWriter buf4))"

function DecodeKeyspacePartitionMap_loop ::
  "(TabletType \<times> KeyspacePartition) list \<Rightarrow> buffer
     \<Rightarrow> (TabletType \<times> KeyspacePartition) list decoded" where
  "DecodeKeyspacePartitionMap_loop values buf =
     (case NextByte buf of
        Inl e \<Rightarrow> Inl e
      | Inr (kind, buf1) \<Rightarrow>
          if kind = bson_EOO then Inr (values, buf1)
          else if kind \<noteq> bson_Object then Inl (UnexpectedTag kind ''KeyspacePartition map'')
          else (case ReadCString buf1 of
                  Inl e \<Rightarrow> Inl e
                | Inr (keyName, buf2) \<Rightarrow>
                    (case KeyspacePartition_UnmarshalBson KeyspacePartition_zero buf2 kind of
                       Inl e \<Rightarrow> Inl e
                     | Inr (v, buf3) \<Rightarrow>
                         DecodeKeyspacePartitionMap_loop (AList.update keyName v values) buf3)))"
  by pat_completeness auto
termination
  by (relation "measure (\<lambda>(values, buf). length buf)")
    (auto dest!: NextByte_length ReadCString_length KeyspacePartition_UnmarshalBson_length)

declare DecodeKeyspacePartitionMap_loop.simps [simp del]

lemma DecodeKeyspacePartitionMap_loop_cases:
  assumes "DecodeKeyspacePartitionMap_loop vs buf = Inr (vs', rest)"
  obtains (eoo) "NextByte buf = Inr (bson_EOO, rest)" "vs' = vs"
  | (elem) buf1 keyName buf2 v buf3 where
      "NextByte buf = Inr (bson_Object, buf1)"
      "ReadCString buf1 = Inr (keyName, buf2)"
      "KeyspacePartition_UnmarshalBson KeyspacePartition_zero buf2 bson_Object = Inr (v, buf3)"
      "DecodeKeyspacePartitionMap_loop (AList.update keyName v vs) buf3 = Inr (vs', rest)"
  using assms
  by (subst (asm) DecodeKeyspacePartitionMap_loop.simps)
    (auto split: sum.splits prod.splits if_splits)

lemma DecodeKeyspacePartitionMap_loop_length:
  "DecodeKeyspacePartitionMap_loop vs buf = Inr (vs', rest)
   \<Longrightarrow> length rest \<le> length buf"
proof (induction buf arbitrary: vs rule: length_induct)
  case (1 buf)
  from "1.prems" show ?case
  proof (cases rule: DecodeKeyspacePartitionMap_loop_cases)
    case eoo
    then show ?thesis using NextByte_length by fastforce
  next
    case (elem buf1 keyName buf2 v buf3)
    have "length buf3 < length buf"
      using NextByte_length [OF elem(1)] ReadCString_length [OF elem(2)]
        KeyspacePartition_UnmarshalBson_length [OF elem(3)] by simp
    with "1.IH" elem(4) have "length rest \<le> length buf3" by blast
    with \<open>length buf3 < length buf\<close> show ?thesis by simp
  qed
qed

definition DecodeKeyspacePartitionMap ::
  "buffer \<Rightarrow> byte \<Rightarrow> (TabletType \<times> KeyspacePartition) list decoded" where
  "DecodeKeyspacePartitionMap buf kind =
     (if kind = bson_Object then
        (case Next buf 4 of
           Inl e \<Rightarrow> Inl e
         | Inr (l, buf1) \<Rightarrow> DecodeKeyspacePartitionMap_loop [] buf1)
      else if kind = bson_Null then Inr ([], buf)
      else Inl (UnexpectedTag kind ''KeyspacePartition map''))"

lemma DecodeKeyspacePartitionMap_length:
  "DecodeKeyspacePartitionMap buf kind = Inr (vs, rest) \<Longrightarrow> length rest \<le> length buf"
  unfolding DecodeKeyspacePartitionMap_def
  by (auto split: if_splits sum.splits
      dest!: Next_length DecodeKeyspacePartitionMap_loop_length)

definition EncodeServedFrom :: "buffer \<Rightarrow> string \<Rightarrow> (TabletType \<times> string) list \<Rightarrow> buffer" where
  "EncodeServedFrom buf name servedFrom =
     (let buf1 = EncodePrefix buf bson_Object name;
          (lenWriter, buf2) = NewLenWriter buf1;
          buf3 = foldl (\<lambda>b (k, v). EncodeString b k v) buf2 servedFrom;
          buf4 = WriteByte buf3 NUL
      in RecordLen lenWriter buf4)"

function DecodeServedFrom_loop ::
  "(TabletType \<times> string) list \<Rightarrow> buffer \<Rightarrow> (TabletType \<times> string) list decoded" where
  "DecodeServedFrom_loop servedFrom buf =
     (case NextByte buf of
        Inl e \<Rightarrow> Inl e
      | Inr (kind, buf1) \<Rightarrow>
          if kind = bson_EOO then Inr (servedFrom, buf1)
          else (case ReadCString buf1 of
                  Inl e \<Rightarrow> Inl e
                | Inr (keyName, buf2) \<Rightarrow>
                    if kind = bson_String \<or> kind = bson_Binary then
                      (case DecodeString buf2 kind of
                         Inl e \<Rightarrow> Inl e
                       | Inr (v, buf3) \<Rightarrow>
                           DecodeServedFrom_loop (AList.update keyName v servedFrom) buf3)
                    else DecodeServedFrom_loop servedFrom buf2))"
  by pat_completeness auto
termination
  by (relation "measure (\<lambda>(servedFrom, buf). length buf)")
    (auto dest!: NextByte_length ReadCString_length DecodeString_length)

declare DecodeServedFrom_loop.simps [simp del]

lemma DecodeServedFrom_loop_cases:
  assumes "DecodeServedFrom_loop servedFrom buf = Inr (servedFrom', rest)"
  obtains (eoo) "NextByte buf = Inr (bson_EOO, rest)" "servedFrom' = servedFrom"
  | (entry) kind buf1 keyName buf2 v buf3 where
      "NextByte buf = Inr (kind, buf1)" "kind = bson_String \<or> kind = bson_Binary"
      "ReadCString buf1 = Inr (keyName, buf2)"
      "DecodeString buf2 kind = Inr (v, buf3)"
      "DecodeServedFrom_loop (AList.update keyName v servedFrom) buf3 = Inr (servedFrom', rest)"
  | (other) kind buf1 keyName buf2 where
      "NextByte buf = Inr (kind, buf1)" "kind \<noteq> bson_EOO"
      "kind \<noteq> bson_String" "kind \<noteq> bson_Binary"
      "ReadCString buf1 = Inr (keyName, buf2)"
      "DecodeServedFrom_loop servedFrom buf2 = Inr (servedFrom', rest)"
  using assms
  by (subst (asm) DecodeServedFrom_loop.simps)
    (auto split: sum.splits prod.splits if_splits)

lemma DecodeServedFrom_loop_length:
  "DecodeServedFrom_loop servedFrom buf = Inr (servedFrom', rest)
   \<Longrightarrow> length rest \<le> length buf"
proof (induction buf arbitrary: servedFrom rule: length_induct)
  case (1 buf)
  from "1.prems" show ?case
  proof (cases rule: DecodeServedFrom_loop_cases)
    case eoo
    then show ?thesis using NextByte_length by fastforce
  next
    case (entry kind buf1 keyName buf2 v buf3)
    have "length buf3 < length buf"
      using NextByte_length [OF entry(1)] ReadCString_length [OF entry(3)]
        DecodeString_length [OF entry(4)] by simp
    with "1.IH" entry(5) have "length rest \<le> length buf3" by blast
    with \<open>length buf3 < length buf\<close> show ?thesis by simp
  next
    case (other kind buf1 keyName buf2)
    have "length buf2 < length buf"
      using NextByte_length [OF other(1)] ReadCString_length [OF other(5)] by simp
    with "1.IH" other(6) have "length rest \<le> length buf2" by blast
    with \<open>length buf2 < length buf\<close> show ?thesis by simp
  qed
qed

definition DecodeServedFrom :: "buffer \<Rightarrow> byte \<Rightarrow> (TabletType \<times> string) list decoded" where
  "DecodeServedFrom buf kind =
     (if kind = bson_Object then
        (case Next buf 4 of Inl e \<Rightarrow> Inl e | Inr (l, buf1) \<Rightarrow> DecodeServedFrom_loop [] buf1)
      else if kind = bson_Null then Inr ([], buf)
      else Inl (UnexpectedTag kind ''ServedFrom map''))"

lemma DecodeServedFrom_length:
  "DecodeServedFrom buf kind = Inr (servedFrom, rest) \<Longrightarrow> length rest \<le> length buf"
  unfolding DecodeServedFrom_def
  by (auto split: if_splits sum.splits dest!: Next_length DecodeServedFrom_loop_length)

definition SrvKeyspace_MarshalBson :: "buffer \<Rightarrow> string \<Rightarrow> SrvKeyspace \<Rightarrow> buffer" where
  "SrvKeyspace_MarshalBson buf key sk =
     (let buf1 = EncodeOptionalPrefix buf bson_Object key;
          (lenWriter, buf2) = NewLenWriter buf1;
          buf3 = EncodeKeyspacePartitionMap buf2 ''Partitions'' (Partitions sk);
          buf4 = EncodeSrvShardArray buf3 ''Shards'' (keyspace_Shards sk);
          buf5 = EncodeTabletTypeArray buf4 ''TabletTypes'' (keyspace_TabletTypes sk);
          buf6 = EncodeString buf5 ''ShardingColumnName'' (ShardingColumnName sk);
          buf7 = EncodeString buf6 ''ShardingColumnType'' (ShardingColumnType sk);
          buf8 = EncodeServedFrom buf7 ''ServedFrom'' (ServedFrom sk);
          buf9 = WriteByte buf8 NUL
      in RecordLen lenWriter buf9)"

definition SrvKeyspace_field ::
  "SrvKeyspace \<Rightarrow> string \<Rightarrow> buffer \<Rightarrow> byte \<Rightarrow> SrvKeyspace decoded" where
  "SrvKeyspace_field sk keyName buf kind =
     (if keyName = ''Partitions'' then
        (case DecodeKeyspacePartitionMap buf kind of
           Inl e \<Rightarrow> Inl e
         | Inr (v, rest) \<Rightarrow> Inr (sk\<lparr>Partitions := v\<rparr>, rest))
      else if keyName = ''Shards'' then
        (case DecodeSrvShardArray buf kind of
           Inl e \<Rightarrow> Inl e
         | Inr (v, rest) \<Rightarrow> Inr (sk\<lparr>keyspace_Shards := v\<rparr>, rest))
      else if keyName = ''TabletTypes'' then
        (case DecodeTabletTypeArray buf kind of
           Inl e \<Rightarrow> Inl e
         | Inr (v, rest) \<Rightarrow> Inr (sk\<lparr>keyspace_TabletTypes := v\<rparr>, rest))
      else if keyName = ''ShardingColumnName'' then
        (case DecodeString buf kind of
           Inl e \<Rightarrow> Inl e
         | Inr (v, rest) \<Rightarrow> Inr (sk\<lparr>ShardingColumnName := v\<rparr>, rest))
      else if keyName = ''ShardingColumnType'' then
        (case DecodeString buf kind of
           Inl e \<Rightarrow> Inl e
         | Inr (v, rest) \<Rightarrow> Inr (sk\<lparr>ShardingColumnType := v\<rparr>, rest))
      else if keyName = ''ServedFrom'' then
        (case DecodeServedFrom buf kind of
           Inl e \<Rightarrow> Inl e
         | Inr (v, rest) \<Rightarrow> Inr (sk\<lparr>ServedFrom := v\<rparr>, rest))
      else
        (case Skip buf kind of Inl e \<Rightarrow> Inl e | Inr rest \<Rightarrow> Inr (sk, rest)))"

lemma SrvKeyspace_field_length:
  "SrvKeyspace_field sk keyName buf kind = Inr (sk', rest) \<Longrightarrow> length rest \<le> length buf"
  unfolding SrvKeyspace_field_def
  by (auto split: if_splits sum.splits
      dest!: DecodeKeyspacePartitionMap_length DecodeSrvShardArray_length
        DecodeTabletTypeArray_length DecodeString_length DecodeServedFrom_length Skip_length)

function SrvKeyspace_fields :: "SrvKeyspace \<Rightarrow> buffer \<Rightarrow> SrvKeyspace decoded" where
  "SrvKeyspace_fields sk buf =
     (case NextByte buf of
        Inl e \<Rightarrow> Inl e
      | Inr (kind, buf1) \<Rightarrow>
          if kind = bson_EOO then Inr (sk, buf1)
          else (case ReadCString buf1 of
                  Inl e \<Rightarrow> Inl e
                | Inr (keyName, buf2) \<Rightarrow>
                    (case SrvKeyspace_field sk keyName buf2 kind of
                       Inl e \<Rightarrow> Inl e
                     | Inr (sk', buf3) \<Rightarrow> SrvKeyspace_fields sk' buf3)))"
  by pat_completeness auto
termination
  by (relation "measure (\<lambda>(sk, buf). length buf)")
    (auto dest!: NextByte_length ReadCString_length SrvKeyspace_field_length)

declare SrvKeyspace_fields.simps [simp del]

lemma SrvKeyspace_fields_cases:
  assumes "SrvKeyspace_fields sk buf = Inr (sk', rest)"
  obtains (eoo) "NextByte buf = Inr (bson_EOO, rest)" "sk' = sk"
  | (field) kind buf1 keyName buf2 sk1 buf3 where
      "NextByte buf = Inr (kind, buf1)" "kind \<noteq> bson_EOO"
      "ReadCString buf1 = Inr (keyName, buf2)"
      "SrvKeyspace_field sk keyName buf2 kind = Inr (sk1, buf3)"
      "SrvKeyspace_fields sk1 buf3 = Inr (sk', rest)"
  using assms
  by (subst (asm) SrvKeyspace_fields.simps) (auto split: sum.splits prod.splits if_splits)

lemma SrvKeyspace_fields_length:
  "SrvKeyspace_fields sk buf = Inr (sk', rest) \<Longrightarrow> length rest \<le> length buf"
proof (induction buf arbitrary: sk rule: length_induct)
  case (1 buf)
  from "1.prems" show ?case
  proof (cases rule: SrvKeyspace_fields_cases)
    case eoo
    then show ?thesis using NextByte_length by fastforce
  next
    case (field kind buf1 keyName buf2 sk1 buf3)
    have "length buf3 < length buf"
      using NextByte_length [OF field(1)] ReadCString_length [OF field(3)]
        SrvKeyspace_field_length [OF field(4)] by simp
    with "1.IH" field(5) have "length rest \<le> length buf3" by blast
    with \<open>length buf3 < length buf\<close> show ?thesis by simp
  qed
qed

definition SrvKeyspace_UnmarshalBson :: "SrvKeyspace \<Rightarrow> buffer \<Rightarrow> byte \<Rightarrow> SrvKeyspace decoded" where
  "SrvKeyspace_UnmarshalBson sk buf kind =
     (case VerifyObject kind of
        Some e \<Rightarrow> Inl e
      | None \<Rightarrow> (case Next buf 4 of Inl e \<Rightarrow> Inl e | Inr (l, buf1) \<Rightarrow> SrvKeyspace_fields sk buf1))"

lemma SrvKeyspace_UnmarshalBson_length:
  "SrvKeyspace_UnmarshalBson sk buf kind = Inr (sk', rest) \<Longrightarrow> length rest \<le> length buf"
  unfolding SrvKeyspace_UnmarshalBson_def
  by (auto split: option.splits sum.splits dest!: Next_length SrvKeyspace_fields_length)

section \<open>Reading what was written\<close>

lemma NextByte_Cons: "NextByte (b # rest) = Inr (b, rest)"
  by (simp add: NextByte_def)

lemma NextByte_Nil: "NextByte [] = Inl UnexpectedEOF"
  by (simp add: NextByte_def)

lemma Next_append: "length a = n \<Longrightarrow> Next (a @ rest) n = Inr (a, rest)"
  by (simp add: Next_def)

lemma Next_putUint32: "Next (putUint32 n @ rest) 4 = Inr (putUint32 n, rest)"
  by (rule Next_append) (rule length_putUint32)

lemma ReadCString_append:
  "NUL \<notin> set name \<Longrightarrow> ReadCString (name @ NUL # rest) = Inr (name, rest)"
proof -
  assume "NUL \<notin> set name"
  then have n: "\<And>c. c \<in> set name \<Longrightarrow> c \<noteq> NUL" by auto
  show ?thesis
    by (simp add: ReadCString_def takeWhile_append2 [OF n] dropWhile_append2 [OF n])
qed

lemma SkipIndex_append: "NUL \<notin> set name \<Longrightarrow> SkipIndex (name @ NUL # rest) = Inr rest"
  by (simp add: SkipIndex_def ReadCString_append)

lemma tags_distinct:
  "bson_Binary \<noteq> bson_EOO" "bson_Object \<noteq> bson_EOO" "bson_Array \<noteq> bson_EOO"
  "bson_Null \<noteq> bson_EOO" "bson_String \<noteq> bson_EOO"
  "bson_Array \<noteq> bson_Null" "bson_Object \<noteq> bson_Null" "bson_Binary \<noteq> bson_String"
  "bson_Object \<noteq> bson_Array" "bson_Null \<noteq> bson_Object" "bson_Null \<noteq> bson_Array"
  by (simp_all add: bson_tags)

lemma EncodeString_bytes:
  "EncodeString buf key val
   = buf @ bson_Binary # key @ NUL # putUint32 (length val) @ NUL # val"
  by (simp add: EncodeString_def EncodePrefix_def WriteByte_def)

lemma DecodeString_Binary:
  "length val < 4294967296
   \<Longrightarrow> DecodeString (putUint32 (length val) @ NUL # val @ rest) bson_Binary = Inr (val, rest)"
  by (simp add: DecodeString_def tags_distinct Next_putUint32 NextByte_Cons Uint32_putUint32
      Next_append)

lemma RecordLen_block:
  "RecordLen (length pre) (pre @ replicate 4 NUL @ body) = pre @ putUint32 (length body) @ body"
  by (simp add: RecordLen_def)

lemma digits_no_NUL: "NUL \<notin> set (digits n)"
proof (induction n rule: digits.induct)
  case (1 n)
  have d: "NUL \<noteq> char_of (48 + k)" if "k < 10" for k :: nat
  proof
    assume "NUL = char_of (48 + k)"
    then have "(of_char (char_of (48 + k)) :: nat) = of_char NUL" by simp
    then have "(48 + k) mod 256 = 0" by simp
    with that show False by simp
  qed
  show ?case
  proof (cases "n < 10")
    case True
    then show ?thesis by (subst digits.simps) (simp add: d)
  next
    case False
    then show ?thesis using "1.IH" by (subst digits.simps) (simp add: d)
  qed
qed

lemma Itoa_no_NUL: "NUL \<notin> set (Itoa i)"
  by (simp add: Itoa_def digits_no_NUL)

lemma Itoa_not_Nil: "Itoa i \<noteq> []"
  by (simp add: Itoa_def) (subst digits.simps, simp)

lemma foldl_append_bytes:
  assumes "\<And>b x. f b x = b @ f [] x"
  shows "foldl f buf xs = buf @ concat (map (f []) xs)"
proof (induction xs arbitrary: buf)
  case Nil
  show ?case by simp
next
  case (Cons x xs)
  have "foldl f buf (x # xs) = foldl f (f buf x) xs" by simp
  also have "\<dots> = f buf x @ concat (map (f []) xs)" by (rule Cons.IH)
  also have "\<dots> = buf @ f [] x @ concat (map (f []) xs)"
    using assms [of buf x] by simp
  finally show ?case by simp
qed

text \<open>
  A field as it stands in a buffer: the tag, the name, the zero byte that ends the name, and
  a body that the decoder \<open>dec\<close>, handed the tag, reads back as \<open>v\<close>, consuming the body
  and no more.
\<close>

definition encodes :: "buffer \<Rightarrow> string \<Rightarrow> (buffer \<Rightarrow> byte \<Rightarrow> 'a decoded) \<Rightarrow> 'a \<Rightarrow> bool" where
  "encodes bytes name dec v =
     (\<exists>kind body. bytes = kind # name @ NUL # body \<and> kind \<noteq> bson_EOO
        \<and> (\<forall>rest. dec (body @ rest) kind = Inr (v, rest)))"

lemma encodesI:
  assumes "bytes = kind # name @ NUL # body" and "kind \<noteq> bson_EOO"
    and "\<And>rest. dec (body @ rest) kind = Inr (v, rest)"
  shows "encodes bytes name dec v"
  using assms unfolding encodes_def by blast

lemma encodes_String:
  "length val < 4294967296 \<Longrightarrow> encodes (EncodeString [] name val) name DecodeString val"
  by (rule encodesI [where kind = bson_Binary and body = "putUint32 (length val) @ NUL # val"])
    (simp_all add: EncodeString_bytes tags_distinct DecodeString_Binary)

subsection \<open>TabletType arrays\<close>

definition TabletType_elems :: "nat \<Rightarrow> TabletType list \<Rightarrow> buffer" where
  "TabletType_elems n vs = concat (map (\<lambda>(i, val). EncodeString [] (Itoa i) val) (enumerate n vs))"

lemma EncodeTabletTypeArray_bytes:
  "EncodeTabletTypeArray buf name vs =
     buf @ (if vs = [] then bson_Null # name @ [NUL]
            else bson_Array # name @ NUL # putUint32 (length (TabletType_elems 0 vs) + 1)
                   @ TabletType_elems 0 vs @ [NUL])"
proof (cases "vs = []")
  case True
  then show ?thesis by (simp add: EncodeTabletTypeArray_def EncodePrefix_def)
next
  case False
  have f: "foldl (\<lambda>b (i, val). EncodeString b (Itoa i) val) b0 (enumerate 0 vs)
           = b0 @ TabletType_elems 0 vs" for b0
    unfolding TabletType_elems_def
    by (rule foldl_append_bytes) (simp add: EncodeString_bytes split: prod.splits)
  have "RecordLen (length (buf @ bson_Array # name @ [NUL]))
          ((buf @ bson_Array # name @ [NUL]) @ replicate 4 NUL @ (TabletType_elems 0 vs @ [NUL]))
        = (buf @ bson_Array # name @ [NUL]) @ putUint32 (length (TabletType_elems 0 vs @ [NUL]))
            @ (TabletType_elems 0 vs @ [NUL])"
    by (rule RecordLen_block)
  then show ?thesis
    using False
    by (simp add: EncodeTabletTypeArray_def EncodePrefix_def NewLenWriter_def WriteByte_def f)
qed

lemma DecodeTabletTypeArray_loop_elems:
  "\<forall>v \<in> set vs. length v < 4294967296
   \<Longrightarrow> DecodeTabletTypeArray_loop acc (TabletType_elems n vs @ NUL # rest) = Inr (acc @ vs, rest)"
proof (induction vs arbitrary: acc n)
  case Nil
  show ?case
    by (subst DecodeTabletTypeArray_loop.simps)
      (simp add: TabletType_elems_def NextByte_Cons bson_EOO_def)
next
  case (Cons v vs)
  have e: "TabletType_elems n (v # vs) @ NUL # rest
        = bson_Binary # Itoa n @ NUL # putUint32 (length v) @ NUL # v
            @ (TabletType_elems (Suc n) vs @ NUL # rest)"
    by (simp add: TabletType_elems_def EncodeString_bytes)
  have "DecodeTabletTypeArray_loop acc (TabletType_elems n (v # vs) @ NUL # rest)
        = DecodeTabletTypeArray_loop (acc @ [v]) (TabletType_elems (Suc n) vs @ NUL # rest)"
    unfolding e using Cons.prems
    by (subst DecodeTabletTypeArray_loop.simps)
      (simp add: NextByte_Cons tags_distinct SkipIndex_append Itoa_no_NUL DecodeString_Binary)
  also have "\<dots> = Inr ((acc @ [v]) @ vs, rest)"
    using Cons.prems by (intro Cons.IH) simp
  finally show ?case by simp
qed

lemma encodes_TabletTypeArray:
  assumes "\<forall>v \<in> set vs. length v < 4294967296"
  shows "encodes (EncodeTabletTypeArray [] name vs) name DecodeTabletTypeArray vs"
proof (cases "vs = []")
  case True
  show ?thesis
    by (rule encodesI [where kind = bson_Null and body = "[]"])
      (simp_all add: EncodeTabletTypeArray_bytes True tags_distinct DecodeTabletTypeArray_def)
next
  case False
  show ?thesis
  proof (rule encodesI [where kind = bson_Array
        and body = "putUint32 (length (TabletType_elems 0 vs) + 1) @ TabletType_elems 0 vs @ [NUL]"])
    show "EncodeTabletTypeArray [] name vs
          = bson_Array # name @ NUL # putUint32 (length (TabletType_elems 0 vs) + 1)
              @ TabletType_elems 0 vs @ [NUL]"
      using False by (simp add: EncodeTabletTypeArray_bytes)
    show "bson_Array \<noteq> bson_EOO" by (rule tags_distinct)
    show "DecodeTabletTypeArray
            ((putUint32 (length (TabletType_elems 0 vs) + 1) @ TabletType_elems 0 vs @ [NUL]) @ rest)
            bson_Array = Inr (vs, rest)" for rest
      using DecodeTabletTypeArray_loop_elems [OF assms, of "[]" 0 rest]
      by (simp add: DecodeTabletTypeArray_def Next_putUint32)
  qed
qed

section \<open>The claims about the codec\<close>

text \<open>
  C6. Each collection decoder faults with \<open>UnexpectedTag\<close> on a leading tag outside its
  allowed set, whatever the buffer holds: the two sequence decoders accept \<open>Array\<close> and
  \<open>Null\<close> only, the two map decoders \<open>Object\<close> and \<open>Null\<close> only. The fault carries the
  offending tag, so no disallowed tag yields a result, empty or otherwise.
\<close>

theorem composite_tag_fault:
  "(kind \<noteq> bson_Array \<and> kind \<noteq> bson_Null \<longrightarrow>
      DecodeTabletTypeArray buf kind = Inl (UnexpectedTag kind ''TabletType array'')
      \<and> DecodeSrvShardArray buf kind = Inl (UnexpectedTag kind ''SrvShard array''))
   \<and> (kind \<noteq> bson_Object \<and> kind \<noteq> bson_Null \<longrightarrow>
      DecodeKeyspacePartitionMap buf kind = Inl (UnexpectedTag kind ''KeyspacePartition map'')
      \<and> DecodeServedFrom buf kind = Inl (UnexpectedTag kind ''ServedFrom map''))"
  by (simp add: DecodeTabletTypeArray_def DecodeSrvShardArray_def DecodeKeyspacePartitionMap_def
      DecodeServedFrom_def)

theorem composite_tag_fault_witness:
  "DecodeTabletTypeArray [] bson_Object = Inl (UnexpectedTag bson_Object ''TabletType array'')
   \<and> DecodeSrvShardArray [] bson_Object = Inl (UnexpectedTag bson_Object ''SrvShard array'')
   \<and> DecodeKeyspacePartitionMap [] bson_Array
       = Inl (UnexpectedTag bson_Array ''KeyspacePartition map'')
   \<and> DecodeServedFrom [] bson_Array = Inl (UnexpectedTag bson_Array ''ServedFrom map'')"
  using composite_tag_fault [of bson_Object "[]"] composite_tag_fault [of bson_Array "[]"]
  by (simp add: bson_tags)

text \<open>
  C2. \<open>EncodeKeyspacePartitionMap\<close> writes an empty map as \<open>Null\<close>, but \<open>EncodeServedFrom\<close>
  has no test for the empty map: it writes an \<open>Object\<close> whose block holds the
  terminator alone.
\<close>

theorem EncodeServedFrom_empty_is_Object:
  "EncodeServedFrom buf name [] = buf @ bson_Object # name @ NUL # putUint32 1 @ [NUL]
   \<and> EncodeKeyspacePartitionMap buf name [] = buf @ bson_Null # name @ [NUL]"
proof -
  have "RecordLen (length (buf @ bson_Object # name @ [NUL]))
          ((buf @ bson_Object # name @ [NUL]) @ replicate 4 NUL @ [NUL])
        = (buf @ bson_Object # name @ [NUL]) @ putUint32 (length [NUL]) @ [NUL]"
    by (rule RecordLen_block)
  then show ?thesis
    by (simp add: EncodeServedFrom_def EncodeKeyspacePartitionMap_def EncodePrefix_def
        NewLenWriter_def WriteByte_def)
qed

text \<open>
  C5. An element of a TabletType sequence whose tag is not \<open>Binary\<close> is a fault that names
  the tag. An entry of the ServedFrom map whose tag is neither \<open>String\<close> nor \<open>Binary\<close> is
  no fault: the \<open>switch\<close> of \<open>DecodeServedFrom\<close> has no \<open>default\<close>, so the entry's name is
  read, nothing is stored, and the loop goes on. Here the entry \<open>master\<close> carries the tag
  \<open>Null\<close>, and the decode returns the empty map.
\<close>

theorem DecodeServedFrom_skips_mismatched_entry:
  "DecodeServedFrom (putUint32 9 @ bson_Null # ''master'' @ [NUL, bson_EOO]) bson_Object
     = Inr ([], [])
   \<and> DecodeTabletTypeArray (putUint32 4 @ bson_Null # ''0'' @ [NUL, bson_EOO]) bson_Array
     = Inl (UnexpectedTag bson_Null ''TabletType array'')"
proof -
  have "DecodeServedFrom_loop [] (bson_Null # ''master'' @ [NUL, bson_EOO]) = Inr ([], [])"
    apply (subst DecodeServedFrom_loop.simps)
    apply (simp add: NextByte_Cons bson_tags
        ReadCString_append [of "''master''" "[NUL]", simplified])
    apply (subst DecodeServedFrom_loop.simps)
    apply (simp add: NextByte_Cons bson_tags)
    done
  moreover have "DecodeTabletTypeArray_loop [] (bson_Null # ''0'' @ [NUL, bson_EOO])
      = Inl (UnexpectedTag bson_Null ''TabletType array'')"
    by (subst DecodeTabletTypeArray_loop.simps) (simp add: NextByte_Cons bson_tags)
  ultimately show ?thesis
    by (simp add: DecodeServedFrom_def DecodeTabletTypeArray_def Next_putUint32)
qed

end
